theory Spec2Isabelle
  imports Complex_Main
begin

section \<open>Data model of \<open>clone_env.py\<close>\<close>

text \<open>
  Observation and action vectors are sequences of Python floats; the embedding takes them
  as lists of reals (no rounding, no NaN). Time readings are reals too.
\<close>

type_synonym vec = "real list"

definition CLIENT_TIMEOUT :: real where
  "CLIENT_TIMEOUT = 45 / 10000"

definition FULL_LOOSE_TIME :: real where
  "FULL_LOOSE_TIME = 5 / 10"

text \<open>
  \<open>CloneEnvError(msg)\<close>, with the cause attached by \<open>raise ... from err\<close> (if any).
\<close>

datatype error = CloneEnvError string "string option"

subsection \<open>Worker handles\<close>

text \<open>
  Modelled from the spec: the classes \<open>CommWorker\<close> and \<open>CtrlWorker\<close>
  (\<open>clone_client_env.comm_worker\<close>, \<open>clone_client_env.ctrl_worker\<close>) are not among the
  sources. A worker handle carries a lifecycle state (not-started, running,
  terminated) and an optional captured fault (cause and diagnostic trace); \<open>start\<close> and
  \<open>terminate\<close> are those of a standard process handle, and terminating an
  already-terminated handle is a no-op.
\<close>

datatype lifecycle = NotStarted | Running | Terminated

record worker =
  lifecycle :: lifecycle
  exception :: "(string \<times> string) option"

definition new_worker :: worker where
  "new_worker = \<lparr>lifecycle = NotStarted, exception = None\<rparr>"

definition worker_start :: "worker \<Rightarrow> worker" where
  "worker_start wk = wk\<lparr>lifecycle := Running\<rparr>"

definition worker_terminate :: "worker \<Rightarrow> worker" where
  "worker_terminate wk = wk\<lparr>lifecycle := Terminated\<rparr>"

definition working :: "worker \<Rightarrow> bool" where
  "working wk = (lifecycle wk = Running \<and> exception wk = None)"

subsection \<open>The command channel\<close>

text \<open>
  \<open>mp.Queue(maxsize)\<close>: a FIFO channel; a \<open>maxsize\<close> of zero means no bound. \<open>put\<close>
  appends at the back, \<open>get\<close> takes from the front.
\<close>

record mp_queue =
  maxsize :: nat
  items :: "vec list"

definition mp_Queue :: "nat \<Rightarrow> mp_queue" where
  "mp_Queue n = \<lparr>maxsize = n, items = []\<rparr>"

definition full :: "mp_queue \<Rightarrow> bool" where
  "full q = (0 < maxsize q \<and> maxsize q \<le> length (items q))"

definition queue_get :: "mp_queue \<Rightarrow> mp_queue" where
  "queue_get q = (case items q of [] \<Rightarrow> q | x # xs \<Rightarrow> q\<lparr>items := xs\<rparr>)"

subsection \<open>The hardware client\<close>

text \<open>
  Modelled from the spec: the hardware client reached through
  \<open>clone_client_env.utils.client_connection\<close> is external. It exposes the muscle count
  and the pressure-generation lifecycle calls; the calls made on it are recorded in order.
\<close>

datatype hw_call = StartPressuregen | WaitForDesiredPressure | StopPressuregen

record hardware =
  number_of_muscles :: nat
  hw_calls :: "hw_call list"

definition call_hw :: "hw_call \<Rightarrow> hardware \<Rightarrow> hardware" where
  "call_hw c hw = hw\<lparr>hw_calls := hw_calls hw @ [c]\<rparr>"

subsection \<open>The orchestrator's state\<close>

text \<open>
  The fields of \<open>CloneEnv\<close> (a leading underscore is written \<open>priv_\<close>), the robot the
  host name stands for, and one history variable: \<open>sent\<close> lists every vector that was ever
  enqueued on the command channel, oldest first. The lock and the duplex pipe are handed
  to the workers and play no part in the orchestrator's own control flow; a worker's write
  to the observation buffer is one atomic event (it happens under the lock).
\<close>

record clone_env =
  no_actions :: nat
  priv_hostname :: string
  priv_timeout :: real
  priv_actions_queue :: mp_queue
  priv_current_obs :: "vec option"
  priv_comm_worker :: "worker option"
  priv_current_actions :: "vec option"
  priv_ctrl_worker :: "worker option"
  robot :: hardware
  sent :: "vec list"

definition init :: "string \<Rightarrow> real \<Rightarrow> hardware \<Rightarrow> clone_env" where
  "init hostname timeout hw =
     \<lparr>no_actions = 0, priv_hostname = hostname, priv_timeout = timeout,
      priv_actions_queue = mp_Queue 1, priv_current_obs = None,
      priv_comm_worker = None, priv_current_actions = None,
      priv_ctrl_worker = None, robot = hw, sent = []\<rparr>"

section \<open>The world around the orchestrator\<close>

text \<open>
  Modelled from the spec: what the two worker processes and the clock do while the
  orchestrator runs is a trace of events. The control worker receives the pending action
  from the command channel; the comm worker writes an observation vector into the shared
  buffer; either worker captures a failure into its (empty) fault slot and stops working.
  A worker that is not running, or that has captured a fault, does nothing.
  \<open>Clock t\<close> is an instant at which \<open>time.time()\<close> reads \<open>t\<close>.
\<close>

datatype world_event =
    Clock real
  | CtrlGet
  | CommWrite vec
  | CommFault string string
  | CtrlFault string string

type_synonym world = "world_event list"

fun run_event :: "world_event \<Rightarrow> clone_env \<Rightarrow> clone_env" where
  "run_event (Clock t) env = env"
| "run_event CtrlGet env =
     (case priv_ctrl_worker env of
        None \<Rightarrow> env
      | Some wk \<Rightarrow>
          if working wk
          then env\<lparr>priv_actions_queue := queue_get (priv_actions_queue env)\<rparr>
          else env)"
| "run_event (CommWrite v) env =
     (case priv_comm_worker env of
        None \<Rightarrow> env
      | Some wk \<Rightarrow>
          if working wk
          then (case priv_current_obs env of
                  None \<Rightarrow> env
                | Some old \<Rightarrow> env\<lparr>priv_current_obs := Some v\<rparr>)
          else env)"
| "run_event (CommFault err trace) env =
     (case priv_comm_worker env of
        None \<Rightarrow> env
      | Some wk \<Rightarrow>
          if working wk
          then env\<lparr>priv_comm_worker := Some (wk\<lparr>exception := Some (err, trace)\<rparr>)\<rparr>
          else env)"
| "run_event (CtrlFault err trace) env =
     (case priv_ctrl_worker env of
        None \<Rightarrow> env
      | Some wk \<Rightarrow>
          if working wk
          then env\<lparr>priv_ctrl_worker := Some (wk\<lparr>exception := Some (err, trace)\<rparr>)\<rparr>
          else env)"

fun run_events :: "world \<Rightarrow> clone_env \<Rightarrow> clone_env" where
  "run_events [] env = env"
| "run_events (e # w) env = run_events w (run_event e env)"

text \<open>
  \<open>time.time()\<close>: the world runs on to the next clock instant, whose reading is returned
  with the rest of the trace. \<open>None\<close>: the trace ends before the clock is read again.
\<close>

fun time_time :: "world \<Rightarrow> clone_env \<Rightarrow> (real \<times> clone_env \<times> world) option" where
  "time_time [] env = None"
| "time_time (Clock t # w) env = Some (t, env, w)"
| "time_time (e # w) env = time_time w (run_event e env)"

definition enqueue :: "vec \<Rightarrow> clone_env \<Rightarrow> clone_env" where
  "enqueue x env =
     env\<lparr>priv_actions_queue :=
           (priv_actions_queue env)\<lparr>items := items (priv_actions_queue env) @ [x]\<rparr>,
         sent := sent env @ [x]\<rparr>"

text \<open>
  \<open>self._actions_queue.put(x)\<close>, blocking and without timeout: when the channel has room
  the vector is enqueued at once; otherwise the caller waits while the world runs on, until
  there is room. \<open>None\<close>: the trace ends with the caller still waiting.
\<close>

fun queue_put :: "world \<Rightarrow> clone_env \<Rightarrow> vec \<Rightarrow> (clone_env \<times> world) option" where
  "queue_put [] env x =
     (if full (priv_actions_queue env) then None else Some (enqueue x env, []))"
| "queue_put (e # w) env x =
     (if full (priv_actions_queue env) then queue_put w (run_event e env) x
      else Some (enqueue x env, e # w))"

section \<open>The orchestrator's operations\<close>

text \<open>
  An operation that cannot wait returns \<open>Inl\<close> of the exception it raises or \<open>Inr\<close> of its
  value, with the state it leaves. An operation that can wait (on the channel or on the
  clock) has two more outcomes: \<open>Blocked\<close>, still waiting on the command channel when the
  trace ends, and \<open>Unfinished\<close>, still looping when the trace ends; it also returns the
  rest of the trace.
\<close>

datatype 'a res = Returned 'a | Raised error | Blocked | Unfinished

definition comm_worker :: "clone_env \<Rightarrow> error + worker" where
  "comm_worker env =
     (case priv_comm_worker env of
        None \<Rightarrow> Inl (CloneEnvError
          ''Communication worker is not initialized. Please connect to the robot first.'' None)
      | Some wk \<Rightarrow> Inr wk)"

definition ctrl_worker :: "clone_env \<Rightarrow> error + worker" where
  "ctrl_worker env =
     (case priv_ctrl_worker env of
        None \<Rightarrow> Inl (CloneEnvError
          ''Control worker is not initialized. Please connect to the robot first.'' None)
      | Some wk \<Rightarrow> Inr wk)"

definition force_close :: "clone_env \<Rightarrow> (error + unit) \<times> clone_env" where
  "force_close env =
     (case comm_worker env of
        Inl e \<Rightarrow> (Inl e, env)
      | Inr cw \<Rightarrow>
          (let env1 = env\<lparr>priv_comm_worker := Some (worker_terminate cw)\<rparr> in
           case ctrl_worker env1 of
             Inl e \<Rightarrow> (Inl e, env1)
           | Inr tw \<Rightarrow> (Inr (), env1\<lparr>priv_ctrl_worker := Some (worker_terminate tw)\<rparr>)))"

text \<open>
  \<open>get_obs\<close> returns \<open>numpy.array(self._current_obs)\<close>; the value \<open>None\<close> stands for the
  array made of an unset buffer.
\<close>

definition get_obs :: "clone_env \<Rightarrow> (error + vec option) \<times> clone_env" where
  "get_obs env =
     (case comm_worker env of
        Inl e \<Rightarrow> (Inl e, env)
      | Inr cw \<Rightarrow>
          (case exception cw of
             Some (err, trace) \<Rightarrow>
               (case force_close env of
                  (Inl e, env1) \<Rightarrow> (Inl e, env1)
                | (Inr u, env1) \<Rightarrow> (Inl (CloneEnvError trace (Some err)), env1))
           | None \<Rightarrow> (Inr (priv_current_obs env), env)))"

definition step :: "world \<Rightarrow> clone_env \<Rightarrow> vec \<Rightarrow> unit res \<times> clone_env \<times> world" where
  "step w env actions =
     (case queue_put w env actions of
        None \<Rightarrow> (Blocked, run_events w env, [])
      | Some (env1, w1) \<Rightarrow>
          (case comm_worker env1 of
             Inl e \<Rightarrow> (Raised e, env1, w1)
           | Inr cw \<Rightarrow>
               (case exception cw of
                  Some (err, trace) \<Rightarrow>
                    (case force_close env1 of
                       (Inl e, env2) \<Rightarrow> (Raised e, env2, w1)
                     | (Inr u, env2) \<Rightarrow> (Raised (CloneEnvError trace (Some err)), env2, w1))
                | None \<Rightarrow> (Returned (), env1, w1))))"

definition start_client :: "clone_env \<Rightarrow> clone_env" where
  "start_client env =
     (let env1 = env\<lparr>no_actions := number_of_muscles (robot env)\<rparr>;
          env2 = env1\<lparr>robot := call_hw StartPressuregen (robot env1)\<rparr>
      in env2\<lparr>robot := call_hw WaitForDesiredPressure (robot env2)\<rparr>)"

definition connect :: "clone_env \<Rightarrow> (error + unit) \<times> clone_env" where
  "connect env =
     (let env1 = start_client env;
          env2 = env1\<lparr>priv_current_obs := Some (replicate (no_actions env1) 0)\<rparr>;
          env3 = env2\<lparr>priv_current_actions := Some (replicate (no_actions env2) 0)\<rparr>;
          env4 = env3\<lparr>priv_comm_worker := Some new_worker\<rparr>;
          env5 = env4\<lparr>priv_ctrl_worker := Some new_worker\<rparr>
      in case comm_worker env5 of
           Inl e \<Rightarrow> (Inl e, env5)
         | Inr cw \<Rightarrow>
             (let env6 = env5\<lparr>priv_comm_worker := Some (worker_start cw)\<rparr> in
              case ctrl_worker env6 of
                Inl e \<Rightarrow> (Inl e, env6)
              | Inr tw \<Rightarrow> (Inr (), env6\<lparr>priv_ctrl_worker := Some (worker_start tw)\<rparr>)))"

text \<open>
  The loop of \<open>keep_step\<close>: each turn reads the clock, and steps while the elapsed time is
  below \<open>period\<close>. The recursion is on the trace, which every clock reading shortens.
\<close>

lemma time_time_shorter:
  "time_time w env = Some (t, env1, w1) \<Longrightarrow> length w1 < length w"
  by (induction w env rule: time_time.induct) auto

lemma queue_put_shorter:
  "queue_put w env x = Some (env1, w1) \<Longrightarrow> length w1 \<le> length w"
  by (induction w env x rule: queue_put.induct) (auto split: if_splits)

lemma step_shorter:
  "step w env actions = (r, env1, w1) \<Longrightarrow> length w1 \<le> length w"
  by (auto simp: step_def split: option.splits sum.splits prod.splits
      dest: queue_put_shorter)

function keep_step_loop ::
  "world \<Rightarrow> clone_env \<Rightarrow> real \<Rightarrow> vec \<Rightarrow> real \<Rightarrow> unit res \<times> clone_env \<times> world" where
  "keep_step_loop w env start actions period =
     (case time_time w env of
        None \<Rightarrow> (Unfinished, run_events w env, [])
      | Some (t, env1, w1) \<Rightarrow>
          if t - start < period
          then (case step w1 env1 actions of
                  (Returned u, env2, w2) \<Rightarrow> keep_step_loop w2 env2 start actions period
                | (Raised e, env2, w2) \<Rightarrow> (Raised e, env2, w2)
                | (Blocked, env2, w2) \<Rightarrow> (Blocked, env2, w2)
                | (Unfinished, env2, w2) \<Rightarrow> (Unfinished, env2, w2))
          else (Returned (), env1, w1))"
  by pat_completeness auto
termination
  apply (relation "measure (\<lambda>(w, env, start, actions, period). length w)")
   apply simp
  apply (auto dest!: time_time_shorter step_shorter [OF sym])
  done

declare keep_step_loop.simps [simp del]

definition keep_step ::
  "world \<Rightarrow> clone_env \<Rightarrow> vec \<Rightarrow> real \<Rightarrow> unit res \<times> clone_env \<times> world" where
  "keep_step w env actions period =
     (case time_time w env of
        None \<Rightarrow> (Unfinished, run_events w env, [])
      | Some (start, env1, w1) \<Rightarrow> keep_step_loop w1 env1 start actions period)"

text \<open>\<open>numpy.zeros(self.no_actions) - 1\<close>\<close>

definition all_loose :: "clone_env \<Rightarrow> vec" where
  "all_loose env = map (\<lambda>x. x - 1) (replicate (no_actions env) 0)"

definition loose_all :: "world \<Rightarrow> clone_env \<Rightarrow> real \<Rightarrow> unit res \<times> clone_env \<times> world" where
  "loose_all w env period = keep_step w env (all_loose env) period"

text \<open>
  \<open>reset\<close> discards what its final \<open>get_obs\<close> returns. Its first branch calls
  \<open>self.loose_all()\<close> with no argument, that is, with the default period.
\<close>

definition reset ::
  "world \<Rightarrow> clone_env \<Rightarrow> vec option \<Rightarrow> real \<Rightarrow> unit res \<times> clone_env \<times> world" where
  "reset w env actions period =
     (case (case actions of
              None \<Rightarrow> loose_all w env FULL_LOOSE_TIME
            | Some a \<Rightarrow> keep_step w env a period) of
        (Returned u, env1, w1) \<Rightarrow>
          (case get_obs env1 of
             (Inl e, env2) \<Rightarrow> (Raised e, env2, w1)
           | (Inr obs, env2) \<Rightarrow> (Returned (), env2, w1))
      | (Raised e, env1, w1) \<Rightarrow> (Raised e, env1, w1)
      | (Blocked, env1, w1) \<Rightarrow> (Blocked, env1, w1)
      | (Unfinished, env1, w1) \<Rightarrow> (Unfinished, env1, w1))"

definition close :: "world \<Rightarrow> clone_env \<Rightarrow> unit res \<times> clone_env \<times> world" where
  "close w env =
     (case reset w env None FULL_LOOSE_TIME of
        (Returned u, env1, w1) \<Rightarrow>
          (let env2 = env1\<lparr>robot := call_hw StopPressuregen (robot env1)\<rparr> in
           case force_close env2 of
             (Inl e, env3) \<Rightarrow> (Raised e, env3, w1)
           | (Inr v, env3) \<Rightarrow> (Returned (), env3, w1))
      | (Raised e, env1, w1) \<Rightarrow> (Raised e, env1, w1)
      | (Blocked, env1, w1) \<Rightarrow> (Blocked, env1, w1)
      | (Unfinished, env1, w1) \<Rightarrow> (Unfinished, env1, w1))"

section \<open>Notions used by the properties\<close>

definition connected :: "clone_env \<Rightarrow> bool" where
  "connected env = (priv_comm_worker env \<noteq> None \<and> priv_ctrl_worker env \<noteq> None)"

definition comm_fault :: "clone_env \<Rightarrow> (string \<times> string) option" where
  "comm_fault env = (case priv_comm_worker env of None \<Rightarrow> None | Some wk \<Rightarrow> exception wk)"

definition ctrl_fault :: "clone_env \<Rightarrow> (string \<times> string) option" where
  "ctrl_fault env = (case priv_ctrl_worker env of None \<Rightarrow> None | Some wk \<Rightarrow> exception wk)"

definition both_terminated :: "clone_env \<Rightarrow> bool" where
  "both_terminated env =
     (case priv_comm_worker env of
        None \<Rightarrow> False
      | Some cw \<Rightarrow>
          (case priv_ctrl_worker env of
             None \<Rightarrow> False
           | Some tw \<Rightarrow> lifecycle cw = Terminated \<and> lifecycle tw = Terminated))"

text \<open>The clock readings a trace offers, in order.\<close>

fun readings :: "world \<Rightarrow> real list" where
  "readings [] = []"
| "readings (Clock t # w) = t # readings w"
| "readings (e # w) = readings w"

text \<open>
  What the spec says of \<open>reset\<close>: without actions it performs \<open>loose_all(period)\<close>,
  otherwise \<open>keep_step(actions, period)\<close>, and in both cases it finishes with \<open>get_obs()\<close>.
\<close>

definition reset_spec ::
  "world \<Rightarrow> clone_env \<Rightarrow> vec option \<Rightarrow> real \<Rightarrow> unit res \<times> clone_env \<times> world" where
  "reset_spec w env actions period =
     (case (case actions of
              None \<Rightarrow> loose_all w env period
            | Some a \<Rightarrow> keep_step w env a period) of
        (Returned u, env1, w1) \<Rightarrow>
          (case get_obs env1 of
             (Inl e, env2) \<Rightarrow> (Raised e, env2, w1)
           | (Inr obs, env2) \<Rightarrow> (Returned (), env2, w1))
      | (Raised e, env1, w1) \<Rightarrow> (Raised e, env1, w1)
      | (Blocked, env1, w1) \<Rightarrow> (Blocked, env1, w1)
      | (Unfinished, env1, w1) \<Rightarrow> (Unfinished, env1, w1))"

text \<open>
  A session is a sequence of calls on the orchestrator, made while the world's trace
  unfolds; \<open>Idle\<close> lets one event of the world pass without any call.
\<close>

datatype call =
    Connect
  | GetObs
  | Step vec
  | KeepStep vec real
  | LooseAll real
  | Reset "vec option" real
  | Close
  | ForceClose
  | Idle

fun perform :: "call \<Rightarrow> world \<Rightarrow> clone_env \<Rightarrow> clone_env \<times> world" where
  "perform Connect w env = (snd (connect env), w)"
| "perform GetObs w env = (snd (get_obs env), w)"
| "perform (Step a) w env = snd (step w env a)"
| "perform (KeepStep a p) w env = snd (keep_step w env a p)"
| "perform (LooseAll p) w env = snd (loose_all w env p)"
| "perform (Reset a p) w env = snd (reset w env a p)"
| "perform Close w env = snd (close w env)"
| "perform ForceClose w env = (snd (force_close env), w)"
| "perform Idle w env = (case w of [] \<Rightarrow> (env, []) | e # w1 \<Rightarrow> (run_event e env, w1))"

fun session :: "call list \<Rightarrow> world \<Rightarrow> clone_env \<Rightarrow> clone_env \<times> world" where
  "session [] w env = (env, w)"
| "session (c # cs) w env = (case perform c w env of (env1, w1) \<Rightarrow> session cs w1 env1)"

text \<open>
  Modelled from the spec: an observation vector has the length of the muscle count, so a
  comm worker within its contract writes vectors of that length only.
\<close>

fun wf_event :: "nat \<Rightarrow> world_event \<Rightarrow> bool" where
  "wf_event n (CommWrite v) = (length v = n)"
| "wf_event n e = True"

definition obs_ok :: "nat \<Rightarrow> clone_env \<Rightarrow> bool" where
  "obs_ok n env =
     (number_of_muscles (robot env) = n \<and> no_actions env = n \<and>
      (case priv_current_obs env of None \<Rightarrow> False | Some obs \<Rightarrow> length obs = n))"

definition queue_ok :: "clone_env \<Rightarrow> bool" where
  "queue_ok env =
     (maxsize (priv_actions_queue env) = 1 \<and> length (items (priv_actions_queue env)) \<le> 1)"

text \<open>A state property and a property of the events still to come.\<close>

definition holds ::
  "(clone_env \<Rightarrow> bool) \<Rightarrow> (world_event \<Rightarrow> bool) \<Rightarrow> clone_env \<times> world \<Rightarrow> bool" where
  "holds P Q sw = (P (fst sw) \<and> list_all Q (snd sw))"

text \<open>
  A robot with three muscles, a fresh orchestrator for it, the orchestrator after
  \<open>connect\<close>, and the latter after the comm worker, or the control worker, has captured a
  fault.
\<close>

definition robot3 :: hardware where
  "robot3 = \<lparr>number_of_muscles = 3, hw_calls = []\<rparr>"

definition fresh_env :: clone_env where
  "fresh_env = init ''clonepiext'' CLIENT_TIMEOUT robot3"

definition live_env :: clone_env where
  "live_env = snd (connect fresh_env)"

definition comm_faulty_env :: clone_env where
  "comm_faulty_env = run_event (CommFault ''boom'' ''traceback'') live_env"

definition ctrl_faulty_env :: clone_env where
  "ctrl_faulty_env = run_event (CtrlFault ''boom'' ''traceback'') live_env"

lemmas run_defs =
  init_def mp_Queue_def connect_def start_client_def call_hw_def new_worker_def
  worker_start_def worker_terminate_def working_def comm_worker_def ctrl_worker_def
  connected_def comm_fault_def ctrl_fault_def both_terminated_def
  force_close_def get_obs_def step_def enqueue_def full_def queue_get_def
  keep_step_def loose_all_def all_loose_def reset_def close_def reset_spec_def
  CLIENT_TIMEOUT_def FULL_LOOSE_TIME_def Let_def

lemma fresh_env_eval:
  "fresh_env =
     \<lparr>no_actions = 0, priv_hostname = ''clonepiext'', priv_timeout = 45 / 10000,
      priv_actions_queue = \<lparr>maxsize = 1, items = []\<rparr>, priv_current_obs = None,
      priv_comm_worker = None, priv_current_actions = None, priv_ctrl_worker = None,
      robot = \<lparr>number_of_muscles = 3, hw_calls = []\<rparr>, sent = []\<rparr>"
  by (simp add: fresh_env_def robot3_def run_defs)

lemma live_env_eval:
  "live_env =
     \<lparr>no_actions = 3, priv_hostname = ''clonepiext'', priv_timeout = 45 / 10000,
      priv_actions_queue = \<lparr>maxsize = 1, items = []\<rparr>,
      priv_current_obs = Some [0, 0, 0],
      priv_comm_worker = Some \<lparr>lifecycle = Running, exception = None\<rparr>,
      priv_current_actions = Some [0, 0, 0],
      priv_ctrl_worker = Some \<lparr>lifecycle = Running, exception = None\<rparr>,
      robot = \<lparr>number_of_muscles = 3,
                hw_calls = [StartPressuregen, WaitForDesiredPressure]\<rparr>,
      sent = []\<rparr>"
  by (simp add: live_env_def fresh_env_eval run_defs numeral_3_eq_3)

lemma comm_faulty_env_eval:
  "comm_faulty_env =
     \<lparr>no_actions = 3, priv_hostname = ''clonepiext'', priv_timeout = 45 / 10000,
      priv_actions_queue = \<lparr>maxsize = 1, items = []\<rparr>,
      priv_current_obs = Some [0, 0, 0],
      priv_comm_worker =
        Some \<lparr>lifecycle = Running, exception = Some (''boom'', ''traceback'')\<rparr>,
      priv_current_actions = Some [0, 0, 0],
      priv_ctrl_worker = Some \<lparr>lifecycle = Running, exception = None\<rparr>,
      robot = \<lparr>number_of_muscles = 3,
                hw_calls = [StartPressuregen, WaitForDesiredPressure]\<rparr>,
      sent = []\<rparr>"
  by (simp add: comm_faulty_env_def live_env_eval run_defs)

lemma ctrl_faulty_env_eval:
  "ctrl_faulty_env =
     \<lparr>no_actions = 3, priv_hostname = ''clonepiext'', priv_timeout = 45 / 10000,
      priv_actions_queue = \<lparr>maxsize = 1, items = []\<rparr>,
      priv_current_obs = Some [0, 0, 0],
      priv_comm_worker = Some \<lparr>lifecycle = Running, exception = None\<rparr>,
      priv_current_actions = Some [0, 0, 0],
      priv_ctrl_worker =
        Some \<lparr>lifecycle = Running, exception = Some (''boom'', ''traceback'')\<rparr>,
      robot = \<lparr>number_of_muscles = 3,
                hw_calls = [StartPressuregen, WaitForDesiredPressure]\<rparr>,
      sent = []\<rparr>"
  by (simp add: ctrl_faulty_env_def live_env_eval run_defs)

lemmas example_defs =
  fresh_env_eval live_env_eval comm_faulty_env_eval ctrl_faulty_env_eval run_defs
  numeral_3_eq_3

section \<open>Basic facts\<close>

lemma run_event_connected: "connected (run_event e env) = connected env"
  by (cases e) (auto simp: connected_def split: option.splits)

lemma run_event_comm_fault:
  "comm_fault env = Some f \<Longrightarrow> comm_fault (run_event e env) = Some f"
  by (cases e) (auto simp: comm_fault_def working_def split: option.splits)

lemma run_event_sent: "sent (run_event e env) = sent env"
  by (cases e) (auto split: option.splits)

lemma run_event_robot: "robot (run_event e env) = robot env"
  by (cases e) (auto split: option.splits)

lemma run_events_connected: "connected (run_events w env) = connected env"
  by (induction w arbitrary: env) (auto simp: run_event_connected)

lemma run_events_comm_fault:
  "comm_fault env = Some f \<Longrightarrow> comm_fault (run_events w env) = Some f"
  by (induction w arbitrary: env) (auto simp: run_event_comm_fault)

lemma run_events_sent: "sent (run_events w env) = sent env"
  by (induction w arbitrary: env) (auto simp: run_event_sent)

lemma run_events_robot: "robot (run_events w env) = robot env"
  by (induction w arbitrary: env) (auto simp: run_event_robot)

lemma readings_append: "readings (u @ v) = readings u @ readings v"
  by (induction u rule: readings.induct) auto

lemma time_time_Some:
  "time_time w env = Some (t, env1, w1) \<Longrightarrow>
     \<exists>pre. w = pre @ Clock t # w1 \<and> readings pre = [] \<and> env1 = run_events pre env"
proof (induction w arbitrary: env)
  case Nil
  then show ?case by simp
next
  case (Cons e w)
  show ?case
  proof (cases "\<exists>t'. e = Clock t'")
    case True
    with Cons.prems show ?thesis by (intro exI [of _ "[]"]) auto
  next
    case False
    then have "time_time (e # w) env = time_time w (run_event e env)"
      and r: "readings (e # pre) = readings pre" for pre
      by (cases e; simp)+
    with Cons obtain pre where "w = pre @ Clock t # w1" "readings pre = []"
      "env1 = run_events pre (run_event e env)" by fastforce
    with r show ?thesis by (intro exI [of _ "e # pre"]) simp
  qed
qed

lemma time_time_None: "time_time w env = None \<Longrightarrow> readings w = []"
  by (induction w env rule: time_time.induct) auto

lemma queue_put_Some:
  "queue_put w env x = Some (env1, w1) \<Longrightarrow>
     \<exists>pre. w = pre @ w1 \<and> \<not> full (priv_actions_queue (run_events pre env))
        \<and> env1 = enqueue x (run_events pre env)
        \<and> (full (priv_actions_queue env) \<longrightarrow> pre \<noteq> [])"
proof (induction w env x rule: queue_put.induct)
  case (1 env x)
  then show ?case by (auto split: if_splits)
next
  case (2 e w env x)
  show ?case
  proof (cases "full (priv_actions_queue env)")
    case True
    with 2 obtain pre where "w = pre @ w1"
      "\<not> full (priv_actions_queue (run_events pre (run_event e env)))"
      "env1 = enqueue x (run_events pre (run_event e env))" by auto
    then show ?thesis by (intro exI [of _ "e # pre"]) simp
  next
    case False
    with 2 show ?thesis by (intro exI [of _ "[]"]) auto
  qed
qed

lemma queue_put_None:
  "queue_put w env x = None \<Longrightarrow> full (priv_actions_queue (run_events w env))"
  by (induction w env x rule: queue_put.induct) (auto split: if_splits)

lemma enqueue_simps:
  "connected (enqueue x env) = connected env"
  "comm_fault (enqueue x env) = comm_fault env"
  "robot (enqueue x env) = robot env"
  "no_actions (enqueue x env) = no_actions env"
  "sent (enqueue x env) = sent env @ [x]"
  "priv_comm_worker (enqueue x env) = priv_comm_worker env"
  "priv_ctrl_worker (enqueue x env) = priv_ctrl_worker env"
  "priv_current_obs (enqueue x env) = priv_current_obs env"
  by (simp_all add: enqueue_def connected_def comm_fault_def)

lemma force_close_terminated:
  "connected env \<Longrightarrow> fst (force_close env) = Inr () \<and> both_terminated (snd (force_close env))
     \<and> connected (snd (force_close env))"
  by (auto simp: connected_def force_close_def comm_worker_def ctrl_worker_def
      both_terminated_def worker_terminate_def)

lemma get_obs_fault:
  "connected env \<Longrightarrow> comm_fault env = Some (err, trace) \<Longrightarrow>
     get_obs env = (Inl (CloneEnvError trace (Some err)), snd (force_close env))"
  using force_close_terminated [of env]
  by (auto simp: get_obs_def comm_worker_def comm_fault_def connected_def
      split: prod.splits sum.splits)

lemma step_fault:
  assumes "connected env" and "comm_fault env = Some (err, trace)"
  shows "queue_put w env actions = None
       \<and> step w env actions = (Blocked, run_events w env, []) \<or>
     (\<exists>env1 w1. queue_put w env actions = Some (env1, w1) \<and>
        step w env actions = (Raised (CloneEnvError trace (Some err)), snd (force_close env1), w1)
        \<and> connected env1)"
proof (cases "queue_put w env actions")
  case None
  then show ?thesis by (simp add: step_def)
next
  case (Some p)
  obtain env1 w1 where p: "p = (env1, w1)" by (cases p)
  from Some p obtain pre where "env1 = enqueue actions (run_events pre env)"
    using queue_put_Some by blast
  with assms have c: "connected env1" and f: "comm_fault env1 = Some (err, trace)"
    by (simp_all add: enqueue_simps run_events_connected run_events_comm_fault)
  from c f force_close_terminated [of env1] have
    "step w env actions = (Raised (CloneEnvError trace (Some err)), snd (force_close env1), w1)"
    using Some p
    by (auto simp: step_def comm_worker_def comm_fault_def connected_def
        split: prod.splits sum.splits)
  with Some p c show ?thesis by simp
qed

lemma force_close_fields:
  "sent (snd (force_close env)) = sent env"
  "robot (snd (force_close env)) = robot env"
  "no_actions (snd (force_close env)) = no_actions env"
  "priv_actions_queue (snd (force_close env)) = priv_actions_queue env"
  "priv_current_obs (snd (force_close env)) = priv_current_obs env"
  by (auto simp: force_close_def comm_worker_def ctrl_worker_def Let_def
      split: option.splits)

lemma step_cases:
  assumes "step w env a = (r, env2, w2)"
  shows "(r = Blocked \<and> queue_put w env a = None \<and> env2 = run_events w env \<and> w2 = []) \<or>
     (\<exists>env1. queue_put w env a = Some (env1, w2) \<and>
        (r = Returned () \<and> env2 = env1 \<or>
         (\<exists>e. r = Raised e) \<and> (env2 = env1 \<or> env2 = snd (force_close env1))))"
  using assms
  by (auto simp: step_def split: option.splits sum.splits prod.splits)

lemma get_obs_state: "snd (get_obs env) = env \<or> snd (get_obs env) = snd (force_close env)"
  by (auto simp: get_obs_def split: option.splits sum.splits prod.splits)

subsection \<open>Properties kept by every operation\<close>

lemma holds_run_events:
  assumes ev: "\<And>e s. Q e \<Longrightarrow> P s \<Longrightarrow> P (run_event e s)"
  shows "holds P Q (env, pre @ w) \<Longrightarrow> holds P Q (run_events pre env, w)"
proof (induction pre arbitrary: env)
  case Nil
  then show ?case by simp
next
  case (Cons e pre)
  then have "holds P Q (run_event e env, pre @ w)"
    using ev by (simp add: holds_def)
  then show ?case using Cons.IH by simp
qed

lemma holds_time_time:
  assumes ev: "\<And>e s. Q e \<Longrightarrow> P s \<Longrightarrow> P (run_event e s)"
    and "time_time w env = Some (t, env1, w1)" and "holds P Q (env, w)"
  shows "holds P Q (env1, w1)"
proof -
  from assms(2) obtain pre where w: "w = pre @ Clock t # w1" and e: "env1 = run_events pre env"
    using time_time_Some by blast
  from assms(3) w have "holds P Q (run_events pre env, Clock t # w1)"
    using holds_run_events [of Q P env pre "Clock t # w1"] ev by simp
  with e show ?thesis by (simp add: holds_def)
qed

lemma holds_queue_put:
  assumes ev: "\<And>e s. Q e \<Longrightarrow> P s \<Longrightarrow> P (run_event e s)"
    and enq: "\<And>x s. \<not> full (priv_actions_queue s) \<Longrightarrow> P s \<Longrightarrow> P (enqueue x s)"
    and "queue_put w env x = Some (env1, w1)" and "holds P Q (env, w)"
  shows "holds P Q (env1, w1)"
proof -
  from assms(3) obtain pre where w: "w = pre @ w1"
    and nf: "\<not> full (priv_actions_queue (run_events pre env))"
    and e: "env1 = enqueue x (run_events pre env)"
    using queue_put_Some by blast
  from assms(4) w have "holds P Q (run_events pre env, w1)"
    using holds_run_events [of Q P env pre w1] ev by simp
  with e nf enq show ?thesis by (simp add: holds_def)
qed

lemma holds_step:
  assumes ev: "\<And>e s. Q e \<Longrightarrow> P s \<Longrightarrow> P (run_event e s)"
    and enq: "\<And>x s. \<not> full (priv_actions_queue s) \<Longrightarrow> P s \<Longrightarrow> P (enqueue x s)"
    and fc: "\<And>s. P s \<Longrightarrow> P (snd (force_close s))"
    and "holds P Q (env, w)"
  shows "holds P Q (snd (step w env a))"
proof -
  obtain r env2 w2 where s: "step w env a = (r, env2, w2)"
    by (cases "step w env a") auto
  from step_cases [OF s] show ?thesis
  proof
    assume "r = Blocked \<and> queue_put w env a = None \<and> env2 = run_events w env \<and> w2 = []"
    moreover have "holds P Q (run_events w env, [])"
      using holds_run_events [of Q P env w "[]"] ev assms(4) by simp
    ultimately show ?thesis using s by simp
  next
    assume "\<exists>env1. queue_put w env a = Some (env1, w2) \<and>
        (r = Returned () \<and> env2 = env1 \<or>
         (\<exists>e. r = Raised e) \<and> (env2 = env1 \<or> env2 = snd (force_close env1)))"
    then obtain env1 where q: "queue_put w env a = Some (env1, w2)"
      and e: "env2 = env1 \<or> env2 = snd (force_close env1)" by auto
    have "holds P Q (env1, w2)"
      using holds_queue_put [of Q P w env a env1 w2] ev enq q assms(4) by blast
    with e fc have "holds P Q (env2, w2)"
      by (auto simp: holds_def)
    then show ?thesis using s by simp
  qed
qed

lemma holds_keep_step_loop:
  assumes ev: "\<And>e s. Q e \<Longrightarrow> P s \<Longrightarrow> P (run_event e s)"
    and enq: "\<And>x s. \<not> full (priv_actions_queue s) \<Longrightarrow> P s \<Longrightarrow> P (enqueue x s)"
    and fc: "\<And>s. P s \<Longrightarrow> P (snd (force_close s))"
  shows "holds P Q (env, w) \<Longrightarrow> holds P Q (snd (keep_step_loop w env start a p))"
proof (induction w env start a p rule: keep_step_loop.induct)
  case (1 w env start actions period)
  show ?case
  proof (cases "time_time w env")
    case None
    moreover have "holds P Q (run_events w env, [])"
      using holds_run_events [of Q P env w "[]"] ev "1.prems" by simp
    ultimately show ?thesis
      by (simp add: keep_step_loop.simps [of w env])
  next
    case (Some x)
    then obtain t env1 w1 where tt: "time_time w env = Some (t, env1, w1)"
      by (cases x) auto
    have h1: "holds P Q (env1, w1)"
      using holds_time_time [of Q P w env t env1 w1] ev tt "1.prems" by blast
    show ?thesis
    proof (cases "t - start < period")
      case False
      with tt h1 show ?thesis
        by (simp add: keep_step_loop.simps [of w env])
    next
      case True
      obtain r env2 w2 where s: "step w1 env1 actions = (r, env2, w2)"
        by (cases "step w1 env1 actions") auto
      have h2: "holds P Q (env2, w2)"
        using holds_step [of Q P env1 w1 actions] ev enq fc h1 s by simp
      show ?thesis
      proof (cases r)
        case (Returned u)
        have "holds P Q (snd (keep_step_loop w2 env2 start actions period))"
        proof (rule "1.IH" [of "(t, env1, w1)" t "(env1, w1)" env1 w1 r "(env2, w2)" u env2 w2])
          show "time_time w env = Some (t, env1, w1)" by (rule tt)
          show "t - start < period" by (rule True)
          show "(r, env2, w2) = step w1 env1 actions" using s by simp
          show "r = Returned u" by (rule Returned)
          show "holds P Q (env2, w2)" by (rule h2)
        qed simp_all
        then show ?thesis
          using tt True s Returned by (simp add: keep_step_loop.simps [of w env])
      next
        case (Raised e)
        then show ?thesis
          using tt True s h2 by (simp add: keep_step_loop.simps [of w env])
      next
        case Blocked
        then show ?thesis
          using tt True s h2 by (simp add: keep_step_loop.simps [of w env])
      next
        case Unfinished
        then show ?thesis
          using tt True s h2 by (simp add: keep_step_loop.simps [of w env])
      qed
    qed
  qed
qed

lemma holds_keep_step:
  assumes ev: "\<And>e s. Q e \<Longrightarrow> P s \<Longrightarrow> P (run_event e s)"
    and enq: "\<And>x s. \<not> full (priv_actions_queue s) \<Longrightarrow> P s \<Longrightarrow> P (enqueue x s)"
    and fc: "\<And>s. P s \<Longrightarrow> P (snd (force_close s))"
    and "holds P Q (env, w)"
  shows "holds P Q (snd (keep_step w env a p))"
proof (cases "time_time w env")
  case None
  moreover have "holds P Q (run_events w env, [])"
    using holds_run_events [of Q P env w "[]"] ev assms(4) by simp
  ultimately show ?thesis by (simp add: keep_step_def)
next
  case (Some x)
  obtain t env1 w1 where x: "x = (t, env1, w1)" by (cases x)
  have "holds P Q (env1, w1)"
    using holds_time_time [of Q P w env t env1 w1] ev Some x assms(4) by blast
  then have "holds P Q (snd (keep_step_loop w1 env1 t a p))"
    using holds_keep_step_loop [of Q P env1 w1 t a p] ev enq fc by blast
  with Some x show ?thesis by (simp add: keep_step_def)
qed

lemma holds_get_obs:
  assumes fc: "\<And>s. P s \<Longrightarrow> P (snd (force_close s))"
    and "holds P Q (env, w)"
  shows "holds P Q (snd (get_obs env), w)"
  using get_obs_state [of env] assms by (auto simp: holds_def)

lemma holds_reset:
  assumes ev: "\<And>e s. Q e \<Longrightarrow> P s \<Longrightarrow> P (run_event e s)"
    and enq: "\<And>x s. \<not> full (priv_actions_queue s) \<Longrightarrow> P s \<Longrightarrow> P (enqueue x s)"
    and fc: "\<And>s. P s \<Longrightarrow> P (snd (force_close s))"
    and "holds P Q (env, w)"
  shows "holds P Q (snd (reset w env actions period))"
proof -
  define k where "k = (case actions of
              None \<Rightarrow> loose_all w env FULL_LOOSE_TIME
            | Some a \<Rightarrow> keep_step w env a period)"
  have hk: "holds P Q (snd k)"
    using holds_keep_step [of Q P env w] ev enq fc assms(4)
    by (cases actions) (simp_all add: k_def loose_all_def)
  obtain r env1 w1 where k: "k = (r, env1, w1)" by (cases k)
  with hk have h1: "holds P Q (env1, w1)" by simp
  have h2: "holds P Q (snd (get_obs env1), w1)"
    using holds_get_obs [of P Q env1 w1] fc h1 by blast
  have "snd (reset w env actions period) = (env1, w1)
      \<or> snd (reset w env actions period) = (snd (get_obs env1), w1)"
    using k unfolding reset_def k_def [symmetric]
    by (cases r) (auto split: prod.splits sum.splits)
  with h1 h2 show ?thesis by auto
qed

lemma holds_close:
  assumes ev: "\<And>e s. Q e \<Longrightarrow> P s \<Longrightarrow> P (run_event e s)"
    and enq: "\<And>x s. \<not> full (priv_actions_queue s) \<Longrightarrow> P s \<Longrightarrow> P (enqueue x s)"
    and fc: "\<And>s. P s \<Longrightarrow> P (snd (force_close s))"
    and hw: "\<And>s c. P s \<Longrightarrow> P (s\<lparr>robot := call_hw c (robot s)\<rparr>)"
    and "holds P Q (env, w)"
  shows "holds P Q (snd (close w env))"
proof -
  obtain r env1 w1 where k: "reset w env None FULL_LOOSE_TIME = (r, env1, w1)"
    by (cases "reset w env None FULL_LOOSE_TIME") auto
  have h1: "holds P Q (env1, w1)"
    using holds_reset [of Q P env w None FULL_LOOSE_TIME] ev enq fc assms(5) k by simp
  then have h2: "holds P Q
      (snd (force_close (env1\<lparr>robot := call_hw StopPressuregen (robot env1)\<rparr>)), w1)"
    using fc hw by (simp add: holds_def)
  have "snd (close w env) = (env1, w1) \<or> snd (close w env) =
      (snd (force_close (env1\<lparr>robot := call_hw StopPressuregen (robot env1)\<rparr>)), w1)"
    using k unfolding close_def
    by (cases r) (auto simp: Let_def split: prod.splits sum.splits)
  with h1 h2 show ?thesis by auto
qed

lemma holds_perform:
  assumes ev: "\<And>e s. Q e \<Longrightarrow> P s \<Longrightarrow> P (run_event e s)"
    and enq: "\<And>x s. \<not> full (priv_actions_queue s) \<Longrightarrow> P s \<Longrightarrow> P (enqueue x s)"
    and fc: "\<And>s. P s \<Longrightarrow> P (snd (force_close s))"
    and hw: "\<And>s c. P s \<Longrightarrow> P (s\<lparr>robot := call_hw c (robot s)\<rparr>)"
    and cn: "\<And>s. P s \<Longrightarrow> P (snd (connect s))"
    and h: "holds P Q (env, w)"
  shows "holds P Q (perform c w env)"
proof (cases c)
  case Connect
  then show ?thesis using cn h by (simp add: holds_def)
next
  case GetObs
  then show ?thesis using holds_get_obs [of P Q env w] fc h by simp
next
  case (Step a)
  then show ?thesis using holds_step [of Q P env w a] ev enq fc h by simp
next
  case (KeepStep a p)
  then show ?thesis using holds_keep_step [of Q P env w a p] ev enq fc h by simp
next
  case (LooseAll p)
  then show ?thesis
    using holds_keep_step [of Q P env w "all_loose env" p] ev enq fc h
    by (simp add: loose_all_def)
next
  case (Reset a p)
  then show ?thesis using holds_reset [of Q P env w a p] ev enq fc h by simp
next
  case Close
  then show ?thesis using holds_close [of Q P env w] ev enq fc hw h by simp
next
  case ForceClose
  then show ?thesis using fc h by (simp add: holds_def)
next
  case Idle
  then show ?thesis using ev h by (cases w) (auto simp: holds_def)
qed

lemma holds_session:
  assumes ev: "\<And>e s. Q e \<Longrightarrow> P s \<Longrightarrow> P (run_event e s)"
    and enq: "\<And>x s. \<not> full (priv_actions_queue s) \<Longrightarrow> P s \<Longrightarrow> P (enqueue x s)"
    and fc: "\<And>s. P s \<Longrightarrow> P (snd (force_close s))"
    and hw: "\<And>s c. P s \<Longrightarrow> P (s\<lparr>robot := call_hw c (robot s)\<rparr>)"
    and cn: "\<And>s. P s \<Longrightarrow> P (snd (connect s))"
  shows "holds P Q (env, w) \<Longrightarrow> holds P Q (session cs w env)"
proof (induction cs arbitrary: env w)
  case Nil
  then show ?case by simp
next
  case (Cons c cs)
  obtain env1 w1 where p: "perform c w env = (env1, w1)"
    by (cases "perform c w env") auto
  have "holds P Q (env1, w1)"
    using holds_perform [of Q P env w c] ev enq fc hw cn Cons.prems p by simp
  then show ?case using Cons.IH p by simp
qed

subsection \<open>The two properties kept\<close>

lemma obs_ok_session:
  assumes "obs_ok n env" and "list_all (wf_event n) w"
  shows "obs_ok n (fst (session cs w env))"
proof -
  have ev: "\<And>e s. wf_event n e \<Longrightarrow> obs_ok n s \<Longrightarrow> obs_ok n (run_event e s)"
  proof -
    fix e s
    assume "wf_event n e" and "obs_ok n s"
    then show "obs_ok n (run_event e s)"
      by (cases e) (auto simp: obs_ok_def split: option.splits)
  qed
  have enq: "\<And>x s. \<not> full (priv_actions_queue s) \<Longrightarrow> obs_ok n s \<Longrightarrow> obs_ok n (enqueue x s)"
    by (simp add: obs_ok_def enqueue_def)
  have fc: "\<And>s. obs_ok n s \<Longrightarrow> obs_ok n (snd (force_close s))"
    by (simp add: obs_ok_def force_close_fields)
  have hw: "\<And>s c. obs_ok n s \<Longrightarrow> obs_ok n (s\<lparr>robot := call_hw c (robot s)\<rparr>)"
    by (simp add: obs_ok_def call_hw_def)
  have cn: "\<And>s. obs_ok n s \<Longrightarrow> obs_ok n (snd (connect s))"
    by (simp add: obs_ok_def connect_def start_client_def call_hw_def comm_worker_def
        ctrl_worker_def Let_def)
  have "holds (obs_ok n) (wf_event n) (session cs w env)"
    using holds_session [of "wf_event n" "obs_ok n" env w cs] ev enq fc hw cn assms
    by (simp add: holds_def)
  then show ?thesis by (simp add: holds_def)
qed

lemma queue_ok_session:
  assumes "queue_ok env"
  shows "queue_ok (fst (session cs w env))"
proof -
  have ev: "\<And>e s. True \<Longrightarrow> queue_ok s \<Longrightarrow> queue_ok (run_event e s)"
  proof -
    fix e s
    assume "queue_ok s"
    then show "queue_ok (run_event e s)"
      by (cases e) (auto simp: queue_ok_def queue_get_def split: option.splits list.splits)
  qed
  have enq: "\<And>x s. \<not> full (priv_actions_queue s) \<Longrightarrow> queue_ok s \<Longrightarrow> queue_ok (enqueue x s)"
  proof -
    fix x s
    assume "\<not> full (priv_actions_queue s)" and "queue_ok s"
    then show "queue_ok (enqueue x s)"
      by (cases "items (priv_actions_queue s)") (auto simp: queue_ok_def enqueue_def full_def)
  qed
  have fc: "\<And>s. queue_ok s \<Longrightarrow> queue_ok (snd (force_close s))"
    by (simp add: queue_ok_def force_close_fields)
  have hw: "\<And>s c. queue_ok s \<Longrightarrow> queue_ok (s\<lparr>robot := call_hw c (robot s)\<rparr>)"
    by (simp add: queue_ok_def)
  have cn: "\<And>s. queue_ok s \<Longrightarrow> queue_ok (snd (connect s))"
    by (simp add: queue_ok_def connect_def start_client_def call_hw_def comm_worker_def
        ctrl_worker_def Let_def)
  have "holds queue_ok (\<lambda>e. True) (session cs w env)"
    using holds_session [of "\<lambda>e. True" queue_ok env w cs] ev enq fc hw cn assms
    by (simp add: holds_def list_all_iff)
  then show ?thesis by (simp add: holds_def)
qed

subsection \<open>What the loop of \<open>keep_step\<close> sends, and when it returns\<close>

lemma time_time_sent:
  "time_time w env = Some (t, env1, w1) \<Longrightarrow> sent env1 = sent env"
  using time_time_Some [of w env t env1 w1] by (auto simp: run_events_sent)

lemma step_sent:
  assumes "step w env a = (r, env2, w2)"
  shows "(r = Blocked \<and> sent env2 = sent env) \<or>
     ((r = Returned () \<or> (\<exists>e. r = Raised e)) \<and> sent env2 = sent env @ [a]
        \<and> (\<exists>pre. w = pre @ w2))"
proof -
  from step_cases [OF assms] show ?thesis
  proof
    assume "r = Blocked \<and> queue_put w env a = None \<and> env2 = run_events w env \<and> w2 = []"
    then show ?thesis by (simp add: run_events_sent)
  next
    assume "\<exists>env1. queue_put w env a = Some (env1, w2) \<and>
        (r = Returned () \<and> env2 = env1 \<or>
         (\<exists>e. r = Raised e) \<and> (env2 = env1 \<or> env2 = snd (force_close env1)))"
    then obtain env1 where q: "queue_put w env a = Some (env1, w2)"
      and r: "r = Returned () \<or> (\<exists>e. r = Raised e)"
      and e: "env2 = env1 \<or> env2 = snd (force_close env1)" by auto
    from q obtain pre where "w = pre @ w2" and "env1 = enqueue a (run_events pre env)"
      using queue_put_Some by blast
    then have "sent env1 = sent env @ [a]" and "\<exists>pre. w = pre @ w2"
      by (auto simp: enqueue_simps run_events_sent)
    with e r show ?thesis
      by (auto simp: force_close_fields)
  qed
qed

lemma keep_step_loop_sent:
  "\<exists>k. sent (fst (snd (keep_step_loop w env start a p))) = sent env @ replicate k a"
proof (induction w env start a p rule: keep_step_loop.induct)
  case (1 w env start actions period)
  show ?case
  proof (cases "time_time w env")
    case None
    then have "sent (fst (snd (keep_step_loop w env start actions period)))
        = sent env @ replicate 0 actions"
      by (simp add: keep_step_loop.simps [of w env] run_events_sent)
    then show ?thesis by blast
  next
    case (Some x)
    then obtain t env1 w1 where tt: "time_time w env = Some (t, env1, w1)"
      by (cases x) auto
    have s1: "sent env1 = sent env"
      using tt by (rule time_time_sent)
    show ?thesis
    proof (cases "t - start < period")
      case False
      with tt s1 have "sent (fst (snd (keep_step_loop w env start actions period)))
          = sent env @ replicate 0 actions"
        by (simp add: keep_step_loop.simps [of w env])
      then show ?thesis by blast
    next
      case True
      obtain r env2 w2 where s: "step w1 env1 actions = (r, env2, w2)"
        by (cases "step w1 env1 actions") auto
      note ss = step_sent [OF s]
      show ?thesis
      proof (cases r)
        case (Returned u)
        have "\<exists>k. sent (fst (snd (keep_step_loop w2 env2 start actions period)))
            = sent env2 @ replicate k actions"
        proof (rule "1.IH" [of "(t, env1, w1)" t "(env1, w1)" env1 w1 r "(env2, w2)" u env2 w2])
          show "time_time w env = Some (t, env1, w1)" by (rule tt)
          show "t - start < period" by (rule True)
          show "(r, env2, w2) = step w1 env1 actions" using s by simp
          show "r = Returned u" by (rule Returned)
        qed simp_all
        then obtain k where "sent (fst (snd (keep_step_loop w2 env2 start actions period)))
            = sent env2 @ replicate k actions" by blast
        moreover have "sent env2 = sent env @ [actions]"
          using ss Returned s1 by auto
        ultimately have "sent (fst (snd (keep_step_loop w env start actions period)))
            = sent env @ replicate (Suc k) actions"
          using tt True s Returned by (simp add: keep_step_loop.simps [of w env])
        then show ?thesis by blast
      next
        case (Raised e)
        then have "sent (fst (snd (keep_step_loop w env start actions period)))
            = sent env @ replicate 1 actions"
          using tt True s ss s1 by (simp add: keep_step_loop.simps [of w env])
        then show ?thesis by blast
      next
        case Blocked
        then have "sent (fst (snd (keep_step_loop w env start actions period)))
            = sent env @ replicate 0 actions"
          using tt True s ss s1 by (simp add: keep_step_loop.simps [of w env])
        then show ?thesis by blast
      next
        case Unfinished
        with ss show ?thesis by simp
      qed
    qed
  qed
qed

lemma keep_step_sent:
  "\<exists>k. sent (fst (snd (keep_step w env a p))) = sent env @ replicate k a"
proof (cases "time_time w env")
  case None
  then have "sent (fst (snd (keep_step w env a p))) = sent env @ replicate 0 a"
    by (simp add: keep_step_def run_events_sent)
  then show ?thesis by blast
next
  case (Some x)
  then obtain t env1 w1 where tt: "time_time w env = Some (t, env1, w1)"
    by (cases x) auto
  obtain k where "sent (fst (snd (keep_step_loop w1 env1 t a p))) = sent env1 @ replicate k a"
    using keep_step_loop_sent by blast
  then have "sent (fst (snd (keep_step w env a p))) = sent env @ replicate k a"
    using tt time_time_sent [OF tt] by (simp add: keep_step_def)
  then show ?thesis by blast
qed


section \<open>Worker faults (C1)\<close>

text \<open>
  C1, as amended. On a connected environment whose comm worker's fault slot holds
  \<open>(err, trace)\<close>: \<open>get_obs\<close> raises \<open>CloneEnvError(trace)\<close> with cause \<open>err\<close> and leaves
  both workers terminated; \<open>step\<close> either stays blocked on the command channel or raises
  that same error and leaves both workers terminated, and it does raise when the channel
  has room. The control worker's fault slot is read by neither operation.
\<close>

theorem comm_fault_surfaces:
  assumes "connected env" and "comm_fault env = Some (err, trace)"
  shows "fst (get_obs env) = Inl (CloneEnvError trace (Some err))
       \<and> both_terminated (snd (get_obs env))
       \<and> (fst (step w env actions) = Blocked \<or>
           fst (step w env actions) = Raised (CloneEnvError trace (Some err))
           \<and> both_terminated (fst (snd (step w env actions))))
       \<and> (\<not> full (priv_actions_queue env) \<longrightarrow>
            fst (step w env actions) = Raised (CloneEnvError trace (Some err)))"
proof -
  have g: "get_obs env = (Inl (CloneEnvError trace (Some err)), snd (force_close env))"
    using assms by (rule get_obs_fault)
  have t: "both_terminated (snd (force_close env))"
    using assms(1) force_close_terminated by blast
  have s: "fst (step w env actions) = Blocked \<or>
           fst (step w env actions) = Raised (CloneEnvError trace (Some err))
           \<and> both_terminated (fst (snd (step w env actions)))"
    using step_fault [OF assms, of w actions] force_close_terminated by auto
  have r: "fst (step w env actions) = Raised (CloneEnvError trace (Some err))"
    if "\<not> full (priv_actions_queue env)"
  proof -
    have "queue_put w env actions \<noteq> None"
      using that by (cases w) auto
    then show ?thesis
      using step_fault [OF assms, of w actions] by auto
  qed
  from g t s r show ?thesis by simp
qed

theorem comm_fault_surfaces_witness:
  "connected comm_faulty_env
   \<and> comm_fault comm_faulty_env = Some (''boom'', ''traceback'')
   \<and> \<not> full (priv_actions_queue comm_faulty_env)
   \<and> fst (get_obs comm_faulty_env) = Inl (CloneEnvError ''traceback'' (Some ''boom''))
   \<and> both_terminated (snd (get_obs comm_faulty_env))
   \<and> fst (step [] comm_faulty_env [1, 0, - 1]) = Raised (CloneEnvError ''traceback'' (Some ''boom''))"
proof -
  have c: "connected comm_faulty_env"
    by (simp add: example_defs)
  have f: "comm_fault comm_faulty_env = Some (''boom'', ''traceback'')"
    by (simp add: example_defs)
  have q: "\<not> full (priv_actions_queue comm_faulty_env)"
    by (simp add: example_defs)
  from comm_fault_surfaces [OF c f, of "[]" "[1, 0, - 1]"] c f q show ?thesis
    by simp
qed

text \<open>
  C1 as stated fails. With a fault in the control worker's slot only, \<open>get_obs\<close> returns
  the observation and \<open>step\<close> returns normally, both workers still running. With a fault in
  the comm worker's slot and the channel full, \<open>step\<close> is blocked and raises nothing.
\<close>

theorem ctrl_fault_goes_unnoticed:
  "connected ctrl_faulty_env
   \<and> ctrl_fault ctrl_faulty_env = Some (''boom'', ''traceback'')
   \<and> get_obs ctrl_faulty_env = (Inr (Some [0, 0, 0]), ctrl_faulty_env)
   \<and> fst (step [] ctrl_faulty_env [1, 0, - 1]) = Returned ()
   \<and> \<not> both_terminated (fst (snd (step [] ctrl_faulty_env [1, 0, - 1])))
   \<and> comm_fault (enqueue [0, 0, 0] comm_faulty_env) = Some (''boom'', ''traceback'')
   \<and> fst (step [Clock 1, Clock 2] (enqueue [0, 0, 0] comm_faulty_env) [1, 0, - 1]) = Blocked"
  by (simp add: example_defs)

section \<open>Operations before \<open>connect\<close> (C3)\<close>

text \<open>
  C3. On a fresh orchestrator \<open>get_obs\<close> raises the not-initialized error and changes
  nothing. \<open>step\<close> raises it too, but only after it has put the actions on the command
  channel; a second \<open>step\<close> then finds the channel full and blocks instead of raising.
\<close>

theorem step_before_connect_enqueues:
  "priv_comm_worker fresh_env = None \<and> priv_ctrl_worker fresh_env = None
   \<and> get_obs fresh_env =
       (Inl (CloneEnvError
          ''Communication worker is not initialized. Please connect to the robot first.''
          None), fresh_env)
   \<and> step [] fresh_env [1, 0, - 1] =
       (Raised (CloneEnvError
          ''Communication worker is not initialized. Please connect to the robot first.''
          None), enqueue [1, 0, - 1] fresh_env, [])
   \<and> items (priv_actions_queue (enqueue [1, 0, - 1] fresh_env)) = [[1, 0, - 1]]
   \<and> items (priv_actions_queue fresh_env) = []
   \<and> fst (step [] (enqueue [1, 0, - 1] fresh_env) [0, 0, 0]) = Blocked"
  by (simp add: example_defs)

section \<open>Forced shutdown (C9)\<close>

lemma force_close_twice:
  assumes "connected env"
  shows "force_close (snd (force_close env)) = (Inr (), snd (force_close env))"
  using assms
  by (auto simp: connected_def force_close_def comm_worker_def ctrl_worker_def
      worker_terminate_def)

text \<open>
  C9. On a connected environment \<open>force_close\<close> returns normally however many times it has
  been called before, every call after the first changes nothing, both workers are
  terminated after it, it returns normally after the forced shutdown that \<open>get_obs\<close> does
  on a comm fault, and terminating a terminated worker handle changes nothing.
\<close>

theorem force_close_idempotent:
  assumes "connected env"
  shows "fst (force_close (((\<lambda>s. snd (force_close s)) ^^ k) env)) = Inr ()
       \<and> ((\<lambda>s. snd (force_close s)) ^^ Suc k) env = snd (force_close env)
       \<and> both_terminated (snd (force_close env))
       \<and> (comm_fault env \<noteq> None \<longrightarrow>
            force_close (snd (get_obs env)) = (Inr (), snd (get_obs env)))
       \<and> (lifecycle wk = Terminated \<longrightarrow> worker_terminate wk = wk)"
proof -
  let ?F = "\<lambda>s. snd (force_close s)"
  have iter: "connected ((?F ^^ k) env) \<and> (?F ^^ Suc k) env = ?F env" for k
  proof (induction k)
    case 0
    show ?case using assms by simp
  next
    case (Suc k)
    have "connected (?F ((?F ^^ k) env))"
      using Suc force_close_terminated by blast
    moreover have "(?F ^^ Suc (Suc k)) env = ?F env"
      using Suc force_close_twice [OF assms] by simp
    ultimately show ?case by simp
  qed
  have a: "fst (force_close ((?F ^^ k) env)) = Inr ()"
    using iter [of k] force_close_terminated by blast
  have b: "both_terminated (?F env)"
    using assms force_close_terminated by blast
  have c: "force_close (snd (get_obs env)) = (Inr (), snd (get_obs env))"
    if "comm_fault env \<noteq> None"
  proof -
    from that obtain err trace where "comm_fault env = Some (err, trace)"
      by (cases "comm_fault env") auto
    then have "snd (get_obs env) = ?F env"
      using assms get_obs_fault by simp
    then show ?thesis using force_close_twice [OF assms] by simp
  qed
  have d: "worker_terminate wk = wk" if "lifecycle wk = Terminated"
    using that by (simp add: worker_terminate_def)
  from a iter [of k] b c d show ?thesis by blast
qed

theorem force_close_idempotent_witness:
  "connected comm_faulty_env
   \<and> comm_fault comm_faulty_env \<noteq> None
   \<and> lifecycle (worker_terminate new_worker) = Terminated
   \<and> fst (force_close (snd (force_close (snd (force_close comm_faulty_env))))) = Inr ()
   \<and> snd (force_close (snd (force_close (snd (force_close comm_faulty_env)))))
       = snd (force_close comm_faulty_env)
   \<and> both_terminated (snd (force_close comm_faulty_env))
   \<and> force_close (snd (get_obs comm_faulty_env)) = (Inr (), snd (get_obs comm_faulty_env))
   \<and> worker_terminate (worker_terminate new_worker) = worker_terminate new_worker"
proof -
  have c: "connected comm_faulty_env"
    by (simp add: example_defs)
  have f: "comm_fault comm_faulty_env \<noteq> None"
    by (simp add: example_defs)
  have l: "lifecycle (worker_terminate new_worker) = Terminated"
    by (simp add: worker_terminate_def)
  from force_close_idempotent [OF c, of 2 "worker_terminate new_worker"] c f l
  show ?thesis by (simp add: numeral_2_eq_2)
qed

section \<open>Connecting and observing (C2)\<close>








section \<open>Vector lengths (C8)\<close>

text \<open>
  C8, as amended. \<open>step\<close> checks no length: on a connected environment without comm
  fault and with room in the command channel it enqueues the vector it is given, whatever
  its length, and returns normally. The observation buffer, of the muscle count's length
  after \<open>connect\<close>, keeps that length through every session in which the comm worker
  writes vectors of that length.
\<close>

theorem step_checks_no_length:
  assumes "connected env" and "comm_fault env = None"
    and "\<not> full (priv_actions_queue env)"
    and "obs_ok n env" and "list_all (wf_event n) w"
  shows "step w env actions = (Returned (), enqueue actions env, w)
       \<and> items (priv_actions_queue (enqueue actions env))
           = items (priv_actions_queue env) @ [actions]
       \<and> obs_ok n (fst (session cs w env))"
proof -
  have q: "queue_put w env actions = Some (enqueue actions env, w)"
    using assms(3) by (cases w) auto
  obtain cw where cw: "priv_comm_worker env = Some cw" and ex: "exception cw = None"
    using assms(1,2) by (auto simp: connected_def comm_fault_def)
  have a: "step w env actions = (Returned (), enqueue actions env, w)"
    using q cw ex by (simp add: step_def comm_worker_def enqueue_simps)
  have b: "items (priv_actions_queue (enqueue actions env))
      = items (priv_actions_queue env) @ [actions]"
    by (simp add: enqueue_def)
  have c: "obs_ok n (fst (session cs w env))"
    using assms(4,5) by (rule obs_ok_session)
  from a b c show ?thesis by simp
qed

theorem step_checks_no_length_witness:
  "connected live_env \<and> comm_fault live_env = None
   \<and> \<not> full (priv_actions_queue live_env)
   \<and> obs_ok 3 live_env \<and> list_all (wf_event 3) [CommWrite [5, 2, 1], CtrlGet]
   \<and> step [CommWrite [5, 2, 1], CtrlGet] live_env [1, 0, - 1, 1, 1]
       = (Returned (), enqueue [1, 0, - 1, 1, 1] live_env, [CommWrite [5, 2, 1], CtrlGet])
   \<and> items (priv_actions_queue (enqueue [1, 0, - 1, 1, 1] live_env)) = [[1, 0, - 1, 1, 1]]
   \<and> obs_ok 3 (fst (session [Idle, GetObs] [CommWrite [5, 2, 1], CtrlGet] live_env))"
proof -
  have a: "connected live_env" and b: "comm_fault live_env = None"
    and c: "\<not> full (priv_actions_queue live_env)"
    and d: "obs_ok 3 live_env" and e: "list_all (wf_event 3) [CommWrite [5, 2, 1], CtrlGet]"
    by (simp_all add: example_defs obs_ok_def)
  have i: "items (priv_actions_queue live_env) = []"
    by (simp add: example_defs)
  from step_checks_no_length [OF a b c d e, of "[1, 0, - 1, 1, 1]" "[Idle, GetObs]"] a b c d e i
  show ?thesis by simp
qed

text \<open>
  C8 as stated fails: on the connected three-muscle environment \<open>step\<close> accepts a vector
  of length one, puts it on the command channel and returns normally.
\<close>

theorem step_forwards_wrong_length:
  "connected live_env \<and> no_actions live_env = 3
   \<and> step [] live_env [1] = (Returned (), enqueue [1] live_env, [])
   \<and> items (priv_actions_queue (enqueue [1] live_env)) = [[1]]
   \<and> sent (enqueue [1] live_env) = [[1]]
   \<and> length [1 :: real] \<noteq> no_actions live_env"
  by (simp add: example_defs)

section \<open>Holding an action for a period (C6)\<close>




section \<open>Loosening all muscles (C7)\<close>

text \<open>
  C7. Whatever \<open>loose_all\<close> puts on the command channel, on an environment whose
  \<open>no_actions\<close> is \<open>n\<close> (the muscle count, after \<open>connect\<close>), is the vector of length \<open>n\<close>
  with every element \<open>-1\<close>.
\<close>

theorem loose_all_sends_all_loose:
  assumes "no_actions env = n"
  shows "\<exists>k. sent (fst (snd (loose_all w env period)))
       = sent env @ replicate k (replicate n (- 1))"
proof -
  have "all_loose env = replicate n (- 1)"
    using assms by (simp add: all_loose_def)
  then show ?thesis
    using keep_step_sent [of w env "all_loose env" period] by (simp add: loose_all_def)
qed

theorem loose_all_sends_all_loose_witness:
  "no_actions live_env = 3
   \<and> sent (fst (snd (loose_all
        [Clock 0, Clock (1 / 10), CtrlGet, Clock (3 / 10), CtrlGet, Clock (6 / 10)]
        live_env FULL_LOOSE_TIME))) = [[- 1, - 1, - 1], [- 1, - 1, - 1]]
   \<and> (\<exists>k. sent (fst (snd (loose_all
        [Clock 0, Clock (1 / 10), CtrlGet, Clock (3 / 10), CtrlGet, Clock (6 / 10)]
        live_env FULL_LOOSE_TIME))) = sent live_env @ replicate k (replicate 3 (- 1)))"
proof -
  have n: "no_actions live_env = 3"
    by (simp add: example_defs)
  have s: "sent (fst (snd (loose_all
        [Clock 0, Clock (1 / 10), CtrlGet, Clock (3 / 10), CtrlGet, Clock (6 / 10)]
        live_env FULL_LOOSE_TIME))) = [[- 1, - 1, - 1], [- 1, - 1, - 1]]"
    by (simp add: example_defs keep_step_loop.simps)
  from loose_all_sends_all_loose [OF n] n s show ?thesis
    by blast
qed

section \<open>Reset (C5)\<close>

lemma reset_without_actions_ignores_period:
  "reset w env None period = reset w env None period'"
  by (simp add: reset_def)

lemma reset_refines_spec_at_default_period:
  "reset w env None FULL_LOOSE_TIME = reset_spec w env None FULL_LOOSE_TIME"
  by (simp add: reset_def reset_spec_def)

lemma reset_refines_spec_with_actions:
  "reset w env (Some a) period = reset_spec w env (Some a) period"
  by (simp add: reset_def reset_spec_def)

text \<open>
  C5. \<open>reset\<close> without actions and with a period of two seconds: the clock reads 0, 1
  and 3. The source looses for the default half second, so its loop ends at the reading 1
  with nothing sent; \<open>loose_all(2)\<close> followed by \<open>get_obs()\<close> sends the all-loose vector
  once and ends at the reading 3.
\<close>

theorem reset_ignores_period:
  "reset [Clock 0, Clock 1, Clock 3] live_env None 2 = (Returned (), live_env, [Clock 3])
   \<and> reset_spec [Clock 0, Clock 1, Clock 3] live_env None 2
       = (Returned (), enqueue [- 1, - 1, - 1] live_env, [])
   \<and> reset [Clock 0, Clock 1, Clock 3] live_env None 2
       \<noteq> reset_spec [Clock 0, Clock 1, Clock 3] live_env None 2"
  by (simp add: example_defs keep_step_loop.simps)

section \<open>Closing with a faulty comm worker (C10)\<close>

lemma time_time_keeps:
  assumes "time_time w env = Some (t, env1, w1)"
  shows "connected env1 = connected env" and "robot env1 = robot env"
    and "comm_fault env = Some f \<Longrightarrow> comm_fault env1 = Some f"
  using time_time_Some [OF assms]
  by (auto simp: run_events_connected run_events_robot run_events_comm_fault)

lemma run_events_not_full:
  "\<not> full (priv_actions_queue env) \<Longrightarrow> \<not> full (priv_actions_queue (run_events w env))"
proof (induction w arbitrary: env)
  case Nil
  then show ?case by simp
next
  case (Cons e w)
  then have "\<not> full (priv_actions_queue (run_event e env))"
    by (cases e) (auto simp: full_def queue_get_def split: option.splits list.splits)
  then show ?case using Cons.IH by simp
qed

lemma time_time_not_full:
  assumes "time_time w env = Some (t, env1, w1)" and "\<not> full (priv_actions_queue env)"
  shows "\<not> full (priv_actions_queue env1)"
  using time_time_Some [OF assms(1)] assms(2) by (auto simp: run_events_not_full)

lemma time_time_readings:
  assumes "time_time w env = Some (t, env1, w1)"
  shows "readings w = t # readings w1"
  using time_time_Some [OF assms] by (auto simp: readings_append)

lemma step_comm_fault:
  assumes "connected env" and "comm_fault env = Some (err, trace)"
    and "step w env a = (r, env', w')"
  shows "robot env' = robot env \<and>
     (r = Blocked \<and> full (priv_actions_queue env) \<or>
      r = Raised (CloneEnvError trace (Some err)) \<and> both_terminated env'
        \<and> sent env' = sent env @ [a])"
proof -
  from step_fault [OF assms(1,2), of w a] show ?thesis
  proof
    assume b: "queue_put w env a = None \<and> step w env a = (Blocked, run_events w env, [])"
    then have "full (priv_actions_queue env)"
      using queue_put_None [of w env a] run_events_not_full [of env w] by blast
    with b assms(3) show ?thesis by (auto simp: run_events_robot)
  next
    assume "\<exists>env1 w1. queue_put w env a = Some (env1, w1) \<and>
        step w env a = (Raised (CloneEnvError trace (Some err)), snd (force_close env1), w1)
        \<and> connected env1"
    then obtain env1 w1 where q: "queue_put w env a = Some (env1, w1)"
      and s: "step w env a = (Raised (CloneEnvError trace (Some err)), snd (force_close env1), w1)"
      and c: "connected env1" by blast
    from q obtain pre where "env1 = enqueue a (run_events pre env)"
      using queue_put_Some by blast
    then have "robot env1 = robot env" and "sent env1 = sent env @ [a]"
      by (simp_all add: enqueue_simps run_events_robot run_events_sent)
    with s c assms(3) force_close_terminated [of env1] show ?thesis
      by (auto simp: force_close_fields)
  qed
qed

lemma keep_step_comm_fault:
  assumes "connected env" and "comm_fault env = Some (err, trace)"
    and "keep_step w env a p = (r, env', w')"
  shows "robot env' = robot env \<and>
     (r = Unfinished \<and> length (readings w) < 2 \<or>
      r = Blocked \<and> full (priv_actions_queue env) \<or>
      r = Raised (CloneEnvError trace (Some err)) \<and> both_terminated env'
        \<and> sent env' = sent env @ [a] \<or>
      r = Returned () \<and> connected env' \<and> comm_fault env' = Some (err, trace)
        \<and> sent env' = sent env)"
proof (cases "time_time w env")
  case None
  with assms(3) time_time_None [of w env] show ?thesis
    by (auto simp: keep_step_def run_events_robot)
next
  case (Some x)
  then obtain start env1 w1 where t0: "time_time w env = Some (start, env1, w1)"
    by (cases x) auto
  note k0 = time_time_keeps [OF t0] time_time_sent [OF t0]
  have rd0: "readings w = start # readings w1"
    using t0 by (rule time_time_readings)
  have loop: "keep_step_loop w1 env1 start a p = (r, env', w')"
    using assms(3) t0 by (simp add: keep_step_def)
  show ?thesis
  proof (cases "time_time w1 env1")
    case None
    with loop k0 rd0 time_time_None [of w1 env1] show ?thesis
      by (auto simp: keep_step_loop.simps [of w1 env1] run_events_robot)
  next
    case (Some y)
    then obtain t env2 w2 where t1: "time_time w1 env1 = Some (t, env2, w2)"
      by (cases y) auto
    note k1 = time_time_keeps [OF t1] time_time_sent [OF t1]
    have c2: "connected env2" and f2: "comm_fault env2 = Some (err, trace)"
      and r2: "robot env2 = robot env" and s2: "sent env2 = sent env"
      using k0 k1 assms(1,2) by simp_all
    have q2: "full (priv_actions_queue env)" if "full (priv_actions_queue env2)"
      using that time_time_not_full [OF t0] time_time_not_full [OF t1] by blast
    show ?thesis
    proof (cases "t - start < p")
      case False
      with loop t1 have "r = Returned ()" and "env' = env2"
        by (simp_all add: keep_step_loop.simps [of w1 env1])
      with c2 f2 r2 s2 show ?thesis by simp
    next
      case True
      obtain r3 env3 w3 where s: "step w2 env2 a = (r3, env3, w3)"
        by (cases "step w2 env2 a") auto
      note sf = step_comm_fault [OF c2 f2 s]
      then have "r3 = Blocked \<or> (\<exists>e. r3 = Raised e)" by auto
      with loop t1 True s have "r = r3" and "env' = env3"
        by (auto simp: keep_step_loop.simps [of w1 env1])
      with sf r2 s2 q2 show ?thesis by auto
    qed
  qed
qed

text \<open>
  C10, as amended. On a connected environment whose comm worker's fault slot holds
  \<open>(err, trace)\<close>, \<open>close\<close> never returns normally and never calls the robot (no
  stop-pressure-generation handshake). Its outcome is that of the \<open>loose_all\<close> inside
  \<open>reset\<close> (the fault raised by the first \<open>step\<close>, or that \<open>step\<close> blocked on the command
  channel) unless \<open>loose_all\<close> returns without a step, in which case \<open>get_obs\<close> raises the
  fault. Whenever \<open>close\<close> raises, it raises \<open>CloneEnvError(trace)\<close> with cause \<open>err\<close>, and
  both workers are terminated; and it does raise when the command channel is not full and
  the clock is read twice.
\<close>

theorem close_with_comm_fault:
  assumes "connected env" and "comm_fault env = Some (err, trace)"
    and "close w env = (r, env', w')"
  shows "r \<noteq> Returned ()
       \<and> hw_calls (robot env') = hw_calls (robot env)
       \<and> (\<forall>e. r = Raised e \<longrightarrow> e = CloneEnvError trace (Some err) \<and> both_terminated env')
       \<and> (if fst (loose_all w env FULL_LOOSE_TIME) = Returned ()
           then r = Raised (CloneEnvError trace (Some err)) \<and> sent env' = sent env
           else r = fst (loose_all w env FULL_LOOSE_TIME))
       \<and> (\<not> full (priv_actions_queue env) \<and> 2 \<le> length (readings w) \<longrightarrow>
            r = Raised (CloneEnvError trace (Some err)))"
proof -
  obtain r1 env1 w1 where l: "loose_all w env FULL_LOOSE_TIME = (r1, env1, w1)"
    by (cases "loose_all w env FULL_LOOSE_TIME") auto
  then have k: "keep_step w env (all_loose env) FULL_LOOSE_TIME = (r1, env1, w1)"
    by (simp add: loose_all_def)
  note kf = keep_step_comm_fault [OF assms(1,2) k]
  show ?thesis
  proof (cases "r1 = Returned ()")
    case True
    with kf have c1: "connected env1" and f1: "comm_fault env1 = Some (err, trace)"
      and r1: "robot env1 = robot env" and s1: "sent env1 = sent env" by auto
    have g: "get_obs env1 = (Inl (CloneEnvError trace (Some err)), snd (force_close env1))"
      using c1 f1 by (rule get_obs_fault)
    have "reset w env None FULL_LOOSE_TIME
        = (Raised (CloneEnvError trace (Some err)), snd (force_close env1), w1)"
      using l True g by (simp add: reset_def)
    then have "close w env = (Raised (CloneEnvError trace (Some err)), snd (force_close env1), w1)"
      by (simp add: close_def)
    with assms(3) have "r = Raised (CloneEnvError trace (Some err))"
      and "env' = snd (force_close env1)" by simp_all
    with l True r1 s1 c1 force_close_terminated [of env1] show ?thesis
      by (simp add: force_close_fields)
  next
    case False
    then have "reset w env None FULL_LOOSE_TIME = (r1, env1, w1)"
      using l by (cases r1) (simp_all add: reset_def)
    then have "close w env = (r1, env1, w1)"
      using False by (cases r1) (simp_all add: close_def)
    with assms(3) have "r = r1" and "env' = env1" by simp_all
    with l False kf show ?thesis by auto
  qed
qed

theorem close_with_comm_fault_witness:
  "connected comm_faulty_env
   \<and> comm_fault comm_faulty_env = Some (''boom'', ''traceback'')
   \<and> fst (close [Clock 3, Clock 4] comm_faulty_env) = Raised (CloneEnvError ''traceback'' (Some ''boom''))
   \<and> fst (loose_all [Clock 3, Clock 4] comm_faulty_env FULL_LOOSE_TIME) = Returned ()
   \<and> both_terminated (fst (snd (close [Clock 3, Clock 4] comm_faulty_env)))
   \<and> sent (fst (snd (close [Clock 3, Clock 4] comm_faulty_env))) = sent comm_faulty_env
   \<and> hw_calls (robot (fst (snd (close [Clock 3, Clock 4] comm_faulty_env))))
       = [StartPressuregen, WaitForDesiredPressure]
   \<and> \<not> full (priv_actions_queue comm_faulty_env)
   \<and> 2 \<le> length (readings [Clock 3, Clock 4])"
proof -
  have q: "\<not> full (priv_actions_queue comm_faulty_env)"
    and d: "2 \<le> length (readings [Clock 3, Clock 4])"
    by (simp_all add: example_defs)
  have c: "connected comm_faulty_env"
    and f: "comm_fault comm_faulty_env = Some (''boom'', ''traceback'')"
    by (simp_all add: example_defs)
  have l: "fst (loose_all [Clock 3, Clock 4] comm_faulty_env FULL_LOOSE_TIME) = Returned ()"
    by (simp add: example_defs keep_step_loop.simps)
  have h: "hw_calls (robot comm_faulty_env) = [StartPressuregen, WaitForDesiredPressure]"
    by (simp add: example_defs)
  have p: "close [Clock 3, Clock 4] comm_faulty_env
      = (fst (close [Clock 3, Clock 4] comm_faulty_env),
         fst (snd (close [Clock 3, Clock 4] comm_faulty_env)),
         snd (snd (close [Clock 3, Clock 4] comm_faulty_env)))"
    by simp
  note t = close_with_comm_fault [OF c f p]
  from t have "if fst (loose_all [Clock 3, Clock 4] comm_faulty_env FULL_LOOSE_TIME) = Returned ()
      then fst (close [Clock 3, Clock 4] comm_faulty_env)
          = Raised (CloneEnvError ''traceback'' (Some ''boom''))
        \<and> sent (fst (snd (close [Clock 3, Clock 4] comm_faulty_env))) = sent comm_faulty_env
      else fst (close [Clock 3, Clock 4] comm_faulty_env)
          = fst (loose_all [Clock 3, Clock 4] comm_faulty_env FULL_LOOSE_TIME)"
    by blast
  with l have r: "fst (close [Clock 3, Clock 4] comm_faulty_env)
          = Raised (CloneEnvError ''traceback'' (Some ''boom''))"
    and s: "sent (fst (snd (close [Clock 3, Clock 4] comm_faulty_env))) = sent comm_faulty_env"
    by simp_all
  from t r have b: "both_terminated (fst (snd (close [Clock 3, Clock 4] comm_faulty_env)))"
    by blast
  from t have "hw_calls (robot (fst (snd (close [Clock 3, Clock 4] comm_faulty_env))))
      = hw_calls (robot comm_faulty_env)"
    by blast
  with h have k: "hw_calls (robot (fst (snd (close [Clock 3, Clock 4] comm_faulty_env))))
      = [StartPressuregen, WaitForDesiredPressure]"
    by simp
  from c f r l b s k q d show ?thesis
    by blast
qed

text \<open>
  C10 as stated fails on where the fault comes from, and on whether it comes at all. With
  the clock reading 0 and then a tenth of a second, the fault is raised by the \<open>step\<close>
  inside \<open>loose_all\<close>, after the all-loose vector has been put on the channel: the
  \<open>get_obs\<close> of \<open>reset\<close> is never reached. With the channel full and the control worker
  stopped by a fault of its own, \<open>close\<close> blocks and raises nothing.
\<close>

theorem close_fault_raised_by_step:
  "connected comm_faulty_env
   \<and> comm_fault comm_faulty_env = Some (''boom'', ''traceback'')
   \<and> fst (loose_all [Clock 0, Clock (1 / 10)] comm_faulty_env FULL_LOOSE_TIME)
       = Raised (CloneEnvError ''traceback'' (Some ''boom''))
   \<and> fst (close [Clock 0, Clock (1 / 10)] comm_faulty_env)
       = Raised (CloneEnvError ''traceback'' (Some ''boom''))
   \<and> sent (fst (snd (close [Clock 0, Clock (1 / 10)] comm_faulty_env))) = [[- 1, - 1, - 1]]
   \<and> comm_fault (enqueue [0, 0, 0] (run_event (CtrlFault ''bang'' ''traceback'') comm_faulty_env))
       = Some (''boom'', ''traceback'')
   \<and> fst (close [Clock 0, Clock (1 / 10), CtrlGet, Clock (2 / 10)]
        (enqueue [0, 0, 0] (run_event (CtrlFault ''bang'' ''traceback'') comm_faulty_env)))
       = Blocked"
  by (simp add: example_defs keep_step_loop.simps)

section \<open>The command channel (C4)\<close>

lemma run_events_queue:
  "CtrlGet \<notin> set w \<Longrightarrow> priv_actions_queue (run_events w env) = priv_actions_queue env"
proof (induction w arbitrary: env)
  case Nil
  then show ?case by simp
next
  case (Cons e w)
  then have "priv_actions_queue (run_event e env) = priv_actions_queue env"
    by (cases e) (auto split: option.splits)
  with Cons show ?case by simp
qed

lemma queue_put_blocked:
  "full (priv_actions_queue env) \<Longrightarrow> CtrlGet \<notin> set w \<Longrightarrow> queue_put w env x = None"
proof (induction w arbitrary: env)
  case Nil
  then show ?case by simp
next
  case (Cons e w)
  then have "priv_actions_queue (run_event e env) = priv_actions_queue env"
    using run_events_queue [of "[e]" env] by simp
  with Cons show ?case by simp
qed

lemma queue_ok_run_events: "queue_ok env \<Longrightarrow> queue_ok (run_events w env)"
proof (induction w arbitrary: env)
  case Nil
  then show ?case by simp
next
  case (Cons e w)
  then have "queue_ok (run_event e env)"
    by (cases e) (auto simp: queue_ok_def queue_get_def split: option.splits list.splits)
  then show ?case using Cons.IH by simp
qed

lemma init_queue_ok: "queue_ok (init hostname timeout hw)"
  by (simp add: queue_ok_def init_def mp_Queue_def)

text \<open>
  C4. In every state a session reaches from a new orchestrator, the command channel has
  capacity one and holds at most one vector. A \<open>step\<close> that finds the channel full stays
  blocked, the channel untouched, as long as the control worker receives nothing; if it
  does not stay blocked, then the control worker has received the pending vector during
  the call, and afterwards the channel holds the new vector alone.
\<close>

theorem command_channel_capacity_one:
  assumes "session cs w0 (init hostname timeout hw) = (env, w1)"
  shows "maxsize (priv_actions_queue env) = 1
       \<and> length (items (priv_actions_queue env)) \<le> 1
       \<and> (full (priv_actions_queue env) \<and> CtrlGet \<notin> set w \<longrightarrow>
            step w env actions = (Blocked, run_events w env, [])
            \<and> priv_actions_queue (run_events w env) = priv_actions_queue env)
       \<and> (full (priv_actions_queue env) \<and> fst (step w env actions) \<noteq> Blocked \<longrightarrow>
            (\<exists>pre. w = pre @ snd (snd (step w env actions)) \<and> CtrlGet \<in> set pre)
            \<and> items (priv_actions_queue (fst (snd (step w env actions)))) = [actions])"
proof -
  have ok: "queue_ok env"
    using queue_ok_session [OF init_queue_ok, of cs w0 hostname timeout hw] assms by simp
  then have a: "maxsize (priv_actions_queue env) = 1"
    and b: "length (items (priv_actions_queue env)) \<le> 1"
    by (simp_all add: queue_ok_def)
  have c: "step w env actions = (Blocked, run_events w env, [])
      \<and> priv_actions_queue (run_events w env) = priv_actions_queue env"
    if "full (priv_actions_queue env) \<and> CtrlGet \<notin> set w"
    using that queue_put_blocked [of env w actions] run_events_queue [of w env]
    by (simp add: step_def)
  have d: "(\<exists>pre. w = pre @ snd (snd (step w env actions)) \<and> CtrlGet \<in> set pre)
      \<and> items (priv_actions_queue (fst (snd (step w env actions)))) = [actions]"
    if f: "full (priv_actions_queue env) \<and> fst (step w env actions) \<noteq> Blocked"
  proof -
    obtain r env2 w2 where s: "step w env actions = (r, env2, w2)"
      by (cases "step w env actions") auto
    with f step_cases [OF s] obtain env1 where q: "queue_put w env actions = Some (env1, w2)"
      and e: "env2 = env1 \<or> env2 = snd (force_close env1)" by auto
    from q obtain pre where w: "w = pre @ w2"
      and nf: "\<not> full (priv_actions_queue (run_events pre env))"
      and e1: "env1 = enqueue actions (run_events pre env)"
      using queue_put_Some by blast
    have "CtrlGet \<in> set pre"
      using nf f run_events_queue [of pre env] by (cases "CtrlGet \<in> set pre") auto
    moreover have "queue_ok (run_events pre env)"
      using ok by (rule queue_ok_run_events)
    then have "items (priv_actions_queue (run_events pre env)) = []"
      using nf by (cases "items (priv_actions_queue (run_events pre env))")
        (auto simp: queue_ok_def full_def)
    then have "items (priv_actions_queue env2) = [actions]"
      using e e1 by (auto simp: enqueue_def force_close_fields)
    ultimately show ?thesis using s w by auto
  qed
  from a b c d show ?thesis by blast
qed

theorem command_channel_capacity_one_witness:
  "session [Connect, Step [1, 0, - 1]] [] (init ''clonepiext'' CLIENT_TIMEOUT robot3)
     = (enqueue [1, 0, - 1] live_env, [])
   \<and> maxsize (priv_actions_queue (enqueue [1, 0, - 1] live_env)) = 1
   \<and> full (priv_actions_queue (enqueue [1, 0, - 1] live_env))
   \<and> CtrlGet \<notin> set [Clock 1]
   \<and> step [Clock 1] (enqueue [1, 0, - 1] live_env) [0, 0, 0]
       = (Blocked, run_events [Clock 1] (enqueue [1, 0, - 1] live_env), [])
   \<and> fst (step [Clock 1, CtrlGet, Clock 2] (enqueue [1, 0, - 1] live_env) [0, 0, 0]) \<noteq> Blocked
   \<and> items (priv_actions_queue
        (fst (snd (step [Clock 1, CtrlGet, Clock 2] (enqueue [1, 0, - 1] live_env) [0, 0, 0]))))
       = [[0, 0, 0]]"
proof -
  let ?env = "enqueue [1, 0, - 1] live_env"
  have s: "session [Connect, Step [1, 0, - 1]] [] (init ''clonepiext'' CLIENT_TIMEOUT robot3)
      = (?env, [])"
    by (simp add: robot3_def example_defs)
  have f: "full (priv_actions_queue ?env)"
    by (simp add: example_defs)
  have n: "CtrlGet \<notin> set [Clock 1]"
    by simp
  have b: "fst (step [Clock 1, CtrlGet, Clock 2] ?env [0, 0, 0]) \<noteq> Blocked"
    by (simp add: example_defs)
  note t1 = command_channel_capacity_one [OF s, of "[Clock 1]" "[0, 0, 0]"]
  note t2 = command_channel_capacity_one [OF s, of "[Clock 1, CtrlGet, Clock 2]" "[0, 0, 0]"]
  from t1 have m: "maxsize (priv_actions_queue ?env) = 1"
    by blast
  from t1 f n have k: "step [Clock 1] ?env [0, 0, 0] = (Blocked, run_events [Clock 1] ?env, [])"
    by blast
  from t2 f b have i: "items (priv_actions_queue
      (fst (snd (step [Clock 1, CtrlGet, Clock 2] ?env [0, 0, 0])))) = [[0, 0, 0]]"
    by blast
  from s m f n k b i show ?thesis
    by blast
qed

end
